theory Spec2Isabelle
  imports Complex_Main
begin

section \<open>GroupNavigation: the position and activity engine of the group navigator\<close>

text \<open>
  A shallow embedding of \<^verbatim>\<open>src/components/GroupNavigation.tsx\<close>. The React component
  keeps five pieces of state (\<^verbatim>\<open>activeGroupId\<close>, \<^verbatim>\<open>isSticky\<close>, \<^verbatim>\<open>navPosition\<close>,
  \<^verbatim>\<open>tooltipOpen\<close> and the observers held in \<^verbatim>\<open>observerRefs\<close>), reads the document
  (element lookup, bounding rectangles, \<^verbatim>\<open>window.scrollY\<close>) and talks to its parent
  through two optional callbacks. Every handler of the component is a function from
  the document, the props and the state to the new state and the list of calls the
  handler makes on the outside (\<^verbatim>\<open>onPinChange\<close>, \<^verbatim>\<open>onGroupClick\<close>,
  \<^verbatim>\<open>window.scrollTo\<close>), in the order it makes them.

  Pixel quantities are JavaScript numbers; they are modelled as reals, so the rounding
  of floating-point addition is outside the model. Group ids are integers in the range
  JavaScript holds exactly (\<open>safeInteger\<close> below).
\<close>

subsection \<open>Data\<close>

text \<open>The two fields of \<^verbatim>\<open>GroupWithSites\<close> (declared in \<^verbatim>\<open>../types\<close>) that the component reads.\<close>

record group =
  group_id :: int
  group_name :: string

text \<open>The fields of a \<^verbatim>\<open>DOMRect\<close> that the component reads from \<^verbatim>\<open>getBoundingClientRect()\<close>.\<close>

record DOMRect =
  rect_top :: real
  rect_left :: real
  rect_height :: real

text \<open>\<^verbatim>\<open>navPosition\<close>: \<^verbatim>\<open>{ top, left, height }\<close>, initially all zero.\<close>

record nav_position =
  nav_top :: real
  nav_left :: real
  nav_height :: real

text \<open>
  An \<^verbatim>\<open>IntersectionObserver\<close> as far as the component uses one: the group whose callback
  it carries, the element id it observes, and whether it is still connected.
\<close>

record observer =
  obs_group :: int
  obs_target :: string
  obs_connected :: bool

text \<open>
  The props. \<^verbatim>\<open>isPinned\<close> is optional: \<open>None\<close> is the omitted flag (\<^verbatim>\<open>undefined\<close>). The two
  callbacks are optional too; the record holds whether each was supplied, and a call of
  one is an \<open>effect\<close> of the handler that makes it.
\<close>

record props =
  groups :: "group list"
  isPinned :: "bool option"
  onPinChange :: bool
  onGroupClick :: bool

text \<open>
  The component's state. \<^verbatim>\<open>observerRefs.current\<close> is an object from element ids to
  observers (or \<^verbatim>\<open>null\<close>); it is an association list in insertion order, and an observer
  is named by its index in \<open>observers\<close>, the list of all observers created so far.
\<close>

record state =
  activeGroupId :: "string option"
  isSticky :: bool
  navPosition :: nav_position
  tooltipOpen :: "string \<rightharpoonup> bool"
  observerRefs :: "(string \<times> nat option) list"
  observers :: "observer list"

text \<open>
  What a handler reads from the page: the two refs of the component (\<open>None\<close> is a
  \<^verbatim>\<open>null\<close> ref), \<^verbatim>\<open>document.getElementById\<close> (giving the element's bounding rectangle) and
  \<^verbatim>\<open>window.scrollY\<close>.
\<close>

record dom =
  navRef :: "DOMRect option"
  firstGroupRef :: "DOMRect option"
  getElementById :: "string \<Rightarrow> DOMRect option"
  scrollY :: real

text \<open>The result of \<^verbatim>\<open>parseInt\<close>: an integer or \<^verbatim>\<open>NaN\<close>.\<close>

datatype number = NaN | Num int

text \<open>The calls a handler makes on the outside.\<close>

datatype effect =
    OnPinChange bool
  | OnGroupClick number
  | ScrollTo real

text \<open>One \<^verbatim>\<open>IntersectionObserverEntry\<close>, as far as the callback reads it.\<close>

record entry =
  isIntersecting :: bool

definition initial_state :: state where
  "initial_state =
     \<lparr>activeGroupId = None, isSticky = False,
      navPosition = \<lparr>nav_top = 0, nav_left = 0, nav_height = 0\<rparr>,
      tooltipOpen = Map.empty, observerRefs = [], observers = []\<rparr>"

subsection \<open>Element ids: printing and parsing a group id\<close>

text \<open>
  \<^verbatim>\<open>`group-${group.id}`\<close> prints the id as \<^verbatim>\<open>Number::toString\<close> does. For a safe integer,
  one of magnitude below \<open>2\<^sup>5\<^sup>3\<close> (\<^verbatim>\<open>Number.isSafeInteger\<close>), that is its decimal digits, with
  a minus sign when negative, and \<open>toString\<close> below is this printing. Beyond that range
  JavaScript prints the shortest digits that give the number back and, from \<open>10\<^sup>2\<^sup>1\<close> on,
  exponent notation (\<^verbatim>\<open>group-1e+21\<close>), which \<open>toString\<close> does not follow: what is said of
  the value decoded from a printed id is said of safe integers only.
\<close>

definition safeInteger :: "int \<Rightarrow> bool" where
  "safeInteger i = (\<bar>i\<bar> < 2 ^ 53)"

definition digitChar :: "nat \<Rightarrow> char" where
  "digitChar n = char_of (48 + n)"

fun showNat :: "nat \<Rightarrow> string" where
  "showNat n = (if n < 10 then [digitChar n] else showNat (n div 10) @ [digitChar (n mod 10)])"

declare showNat.simps [simp del]

definition toString :: "int \<Rightarrow> string" where
  "toString i = (if i < 0 then CHR ''-'' # showNat (nat (- i)) else showNat (nat i))"

definition elementId :: "int \<Rightarrow> string" where
  "elementId i = ''group-'' @ toString i"

text \<open>
  \<^verbatim>\<open>String.prototype.replace\<close> with a string pattern replaces the first occurrence only,
  wherever it is. (The replacement here is the empty string, so the \<^verbatim>\<open>$\<close> patterns of a
  replacement string play no part.)
\<close>

fun replace :: "string \<Rightarrow> string \<Rightarrow> string \<Rightarrow> string" where
  "replace pat rep [] = (if pat = [] then rep else [])"
| "replace pat rep (c # cs) =
     (if take (length pat) (c # cs) = pat then rep @ drop (length pat) (c # cs)
      else c # replace pat rep cs)"

text \<open>
  \<^verbatim>\<open>parseInt(string)\<close> with no radix: leading white space is skipped, one sign is read,
  a \<^verbatim>\<open>0x\<close> or \<^verbatim>\<open>0X\<close> prefix selects radix 16 (radix 10 otherwise), and the longest run of
  digits of that radix is the value; with no digit the result is \<^verbatim>\<open>NaN\<close>. Strings are
  byte strings here, so the white space is the ASCII white space.
\<close>

definition isWhiteSpace :: "char \<Rightarrow> bool" where
  "isWhiteSpace c = (c \<in> set [CHR '' '', CHR 0x09, CHR 0x0A, CHR 0x0B, CHR 0x0C, CHR 0x0D])"

definition digitValue :: "char \<Rightarrow> nat option" where
  "digitValue c =
     (let n = (of_char c :: nat) in
      if 48 \<le> n \<and> n \<le> 57 then Some (n - 48)
      else if 97 \<le> n \<and> n \<le> 122 then Some (n - 87)
      else if 65 \<le> n \<and> n \<le> 90 then Some (n - 55)
      else None)"

definition isDigitOf :: "nat \<Rightarrow> char \<Rightarrow> bool" where
  "isDigitOf R c = (case digitValue c of None \<Rightarrow> False | Some v \<Rightarrow> v < R)"

definition digitOr0 :: "char \<Rightarrow> nat" where
  "digitOr0 c = (case digitValue c of None \<Rightarrow> 0 | Some v \<Rightarrow> v)"

definition mathInt :: "nat \<Rightarrow> string \<Rightarrow> nat" where
  "mathInt R Z = foldl (\<lambda>a c. a * R + digitOr0 c) 0 Z"

definition parseInt :: "string \<Rightarrow> number" where
  "parseInt inputString =
     (let S = dropWhile isWhiteSpace inputString;
          sign = (if take 1 S = ''-'' then - 1 else (1 :: int));
          S1 = (if take 1 S = ''+'' \<or> take 1 S = ''-'' then drop 1 S else S);
          hex = (take 2 S1 = ''0x'' \<or> take 2 S1 = ''0X'');
          R = (if hex then 16 else 10);
          S2 = (if hex then drop 2 S1 else S1);
          Z = takeWhile (isDigitOf R) S2
      in if Z = [] then NaN else Num (sign * int (mathInt R Z)))"

subsection \<open>The geometry probe (lines 35-59)\<close>

definition updateNavPosition :: "dom \<Rightarrow> state \<Rightarrow> state" where
  "updateNavPosition d s =
     (case firstGroupRef d of
        None \<Rightarrow> s
      | Some firstGroupRect \<Rightarrow>
          (case navRef d of
             None \<Rightarrow> s
           | Some navRect \<Rightarrow>
               s\<lparr>navPosition :=
                    \<lparr>nav_top = rect_top firstGroupRect,
                     nav_left = rect_left navRect,
                     nav_height = rect_height navRect\<rparr>\<rparr>))"

subsection \<open>The scroll handler (lines 62-92)\<close>

text \<open>A JavaScript condition on the optional flag: \<^verbatim>\<open>undefined\<close> and \<^verbatim>\<open>false\<close> are both falsy.\<close>

definition truthy :: "bool option \<Rightarrow> bool" where
  "truthy b = (b = Some True)"

text \<open>Lines 69-70: the anchor top, from the live marker or else from \<^verbatim>\<open>navPosition.top\<close>.\<close>

definition firstGroupTop :: "dom \<Rightarrow> state \<Rightarrow> real" where
  "firstGroupTop d s =
     (case getElementById d ''first-group-marker'' of
        Some firstGroupElement \<Rightarrow> rect_top firstGroupElement + scrollY d
      | None \<Rightarrow> nav_top (navPosition s))"

definition handleScroll :: "dom \<Rightarrow> props \<Rightarrow> state \<Rightarrow> state \<times> effect list" where
  "handleScroll d p s =
     (case navRef d of
        None \<Rightarrow> (s, [])
      | Some _ \<Rightarrow>
          if scrollY d > firstGroupTop d s
          then (s\<lparr>isSticky := True\<rparr>,
                if onPinChange p \<and> \<not> truthy (isPinned p) then [OnPinChange True] else [])
          else (s\<lparr>isSticky := False\<rparr>,
                if onPinChange p \<and> truthy (isPinned p) then [OnPinChange False] else []))"

subsection \<open>The observers (lines 95-129)\<close>

text \<open>\<^verbatim>\<open>observer.disconnect()\<close>, on the observer with index \<open>i\<close>.\<close>

definition disconnect :: "nat \<Rightarrow> observer list \<Rightarrow> observer list" where
  "disconnect i os = (if i < length os then os[i := (os ! i)\<lparr>obs_connected := False\<rparr>] else os)"

text \<open>
  Lines 97-99 (and the effect's cleanup, lines 125-127): every value of
  \<^verbatim>\<open>observerRefs.current\<close> that is not \<^verbatim>\<open>null\<close> is disconnected.
\<close>

fun disconnectAll :: "(string \<times> nat option) list \<Rightarrow> observer list \<Rightarrow> observer list" where
  "disconnectAll [] os = os"
| "disconnectAll ((k, None) # refs) os = disconnectAll refs os"
| "disconnectAll ((k, Some i) # refs) os = disconnectAll refs (disconnect i os)"

text \<open>
  \<^verbatim>\<open>observerRefs.current[key] = observer\<close>: an existing key keeps its place and gets the new
  value, a new key goes last.
\<close>

fun assign :: "string \<Rightarrow> nat option \<Rightarrow> (string \<times> nat option) list \<Rightarrow> (string \<times> nat option) list" where
  "assign k v [] = [(k, v)]"
| "assign k v ((k', v') # refs) =
     (if k' = k then (k, v) # refs else (k', v') # assign k v refs)"

text \<open>
  Lines 103-122: for each group whose element exists, a new observer is created,
  observes the element and is stored under the element id.
\<close>

fun createObservers :: "dom \<Rightarrow> group list \<Rightarrow> state \<Rightarrow> state" where
  "createObservers d [] s = s"
| "createObservers d (g # gs) s =
     createObservers d gs
       (case getElementById d (elementId (group_id g)) of
          None \<Rightarrow> s
        | Some element \<Rightarrow>
            s\<lparr>observerRefs :=
                 assign (elementId (group_id g)) (Some (length (observers s))) (observerRefs s),
              observers :=
                 observers s @
                 [\<lparr>obs_group = group_id g, obs_target = elementId (group_id g),
                   obs_connected = True\<rparr>]\<rparr>)"

text \<open>The state between the two halves of the effect: lines 97-100.\<close>

definition clearObservers :: "state \<Rightarrow> state" where
  "clearObservers s =
     s\<lparr>observers := disconnectAll (observerRefs s) (observers s), observerRefs := []\<rparr>"

definition observeGroups :: "dom \<Rightarrow> props \<Rightarrow> state \<Rightarrow> state" where
  "observeGroups d p s = createObservers d (groups p) (clearObservers s)"

text \<open>The cleanup of the effect (lines 124-128).\<close>

definition observeGroups_cleanup :: "state \<Rightarrow> state" where
  "observeGroups_cleanup s = s\<lparr>observers := disconnectAll (observerRefs s) (observers s)\<rparr>"

text \<open>
  Lines 107-113: the callback of the observer made for group \<open>gid\<close>. Every entry that is
  intersecting sets the active id; the others do nothing.
\<close>

fun observerCallback :: "int \<Rightarrow> entry list \<Rightarrow> state \<Rightarrow> state" where
  "observerCallback gid [] s = s"
| "observerCallback gid (e # entries) s =
     observerCallback gid entries
       (if isIntersecting e then s\<lparr>activeGroupId := Some (elementId gid)\<rparr> else s)"

subsection \<open>Clicks and hovering (lines 132-171)\<close>

definition handleNavClick :: "dom \<Rightarrow> props \<Rightarrow> state \<Rightarrow> string \<Rightarrow> state \<times> effect list" where
  "handleNavClick d p s groupId =
     (s\<lparr>tooltipOpen := (tooltipOpen s)(groupId \<mapsto> False)\<rparr>,
      (case getElementById d groupId of
         None \<Rightarrow> []
       | Some element \<Rightarrow>
           [ScrollTo
              (rect_top element + scrollY d
               - (if isSticky s then nav_height (navPosition s) + 20 else 20))])
      @ (if onGroupClick p then [OnGroupClick (parseInt (replace ''group-'' '''' groupId))]
         else []))"

definition handleMouseEnter :: "state \<Rightarrow> string \<Rightarrow> state" where
  "handleMouseEnter s groupId = s\<lparr>tooltipOpen := (tooltipOpen s)(groupId \<mapsto> True)\<rparr>"

definition handleMouseLeave :: "state \<Rightarrow> string \<Rightarrow> state" where
  "handleMouseLeave s groupId = s\<lparr>tooltipOpen := (tooltipOpen s)(groupId \<mapsto> False)\<rparr>"

subsection \<open>Rendering (lines 173-282)\<close>

text \<open>
  What the component returns, without its styling: \<open>None\<close> is \<^verbatim>\<open>null\<close>. A rendered
  navigator has the marker, the container (fixed or not) and one item per group.
\<close>

record nav_item =
  item_key :: string
  item_label :: string
  item_selected :: bool

record rendered =
  fixed_position :: bool
  items :: "nav_item list"

definition GroupNavigation :: "props \<Rightarrow> state \<Rightarrow> rendered option" where
  "GroupNavigation p s =
     (if length (groups p) = 0 then None
      else Some
        \<lparr>fixed_position = isSticky s,
         items = map (\<lambda>g. \<lparr>item_key = elementId (group_id g), item_label = group_name g,
                            item_selected = (activeGroupId s = Some (elementId (group_id g)))\<rparr>)
                     (groups p)\<rparr>)"

text \<open>
  React attaches a ref to the element that carries it and leaves it \<^verbatim>\<open>null\<close> when that
  element is not rendered: a page agrees with what was rendered when, nothing having
  been rendered, both refs of the component are \<^verbatim>\<open>null\<close>.
\<close>

definition refs_of :: "rendered option \<Rightarrow> dom \<Rightarrow> bool" where
  "refs_of r d =
     (case r of
        None \<Rightarrow> navRef d = None \<and> firstGroupRef d = None
      | Some _ \<Rightarrow> True)"

subsection \<open>Runs of events\<close>

text \<open>
  The browser delivers the observers' callbacks one at a time; an event is the group of
  the observer whose callback runs and the entries it is called with.
\<close>

fun deliver :: "(int \<times> entry list) list \<Rightarrow> state \<Rightarrow> state" where
  "deliver [] s = s"
| "deliver ((gid, entries) # events) s = deliver events (observerCallback gid entries s)"

text \<open>
  Two parents. The first stores what \<^verbatim>\<open>onPinChange\<close> tells it and passes it back as
  \<^verbatim>\<open>isPinned\<close> on the next render; the second leaves \<^verbatim>\<open>isPinned\<close> as it is (for instance
  because it omits the optional flag).
\<close>

fun reflecting :: "props \<Rightarrow> effect list \<Rightarrow> props" where
  "reflecting p [] = p"
| "reflecting p (OnPinChange b # es) = reflecting (p\<lparr>isPinned := Some b\<rparr>) es"
| "reflecting p (e # es) = reflecting p es"

definition ignoring :: "props \<Rightarrow> effect list \<Rightarrow> props" where
  "ignoring p es = p"

text \<open>
  A sequence of scroll events, one page per event: the handler runs on each, the parent
  reacts to its calls, and the handler of the next event closes over the new props (the
  effect's dependencies are \<^verbatim>\<open>[navPosition, onPinChange, isPinned]\<close>). The result is
  every call made, in order.
\<close>

fun scroll_events ::
  "(props \<Rightarrow> effect list \<Rightarrow> props) \<Rightarrow> dom list \<Rightarrow> props \<Rightarrow> state \<Rightarrow> effect list" where
  "scroll_events parent [] p s = []"
| "scroll_events parent (d # ds) p s =
     snd (handleScroll d p s)
     @ scroll_events parent ds (parent p (snd (handleScroll d p s))) (fst (handleScroll d p s))"

text \<open>The values at which a sequence of pin states differs from the state before it.\<close>

fun changes :: "bool \<Rightarrow> bool list \<Rightarrow> bool list" where
  "changes b [] = []"
| "changes b (x # xs) = (if x = b then changes b xs else x # changes x xs)"

text \<open>The targets of the scrolls among a handler's calls.\<close>

definition scrollTargets :: "effect list \<Rightarrow> real list" where
  "scrollTargets es = concat (map (\<lambda>e. case e of ScrollTo t \<Rightarrow> [t] | _ \<Rightarrow> []) es)"

text \<open>The arguments of the \<^verbatim>\<open>onGroupClick\<close> calls among a handler's calls.\<close>

definition selections :: "effect list \<Rightarrow> number list" where
  "selections es = concat (map (\<lambda>e. case e of OnGroupClick n \<Rightarrow> [n] | _ \<Rightarrow> []) es)"

text \<open>A string of decimal digits.\<close>

definition decimal :: "string \<Rightarrow> bool" where
  "decimal Z = (\<forall>c \<in> set Z. \<exists>d < 10. c = digitChar d)"

text \<open>
  The observers that are connected, the observers that \<^verbatim>\<open>observerRefs.current\<close> holds,
  and the invariant of the component: every connected observer is held there, so the
  next teardown reaches it.
\<close>

definition live :: "observer list \<Rightarrow> nat list" where
  "live os = filter (\<lambda>i. obs_connected (os ! i)) [0..<length os]"

definition registered :: "(string \<times> nat option) list \<Rightarrow> nat list" where
  "registered refs = concat (map (\<lambda>kv. case snd kv of None \<Rightarrow> [] | Some i \<Rightarrow> [i]) refs)"

definition obs_inv :: "state \<Rightarrow> bool" where
  "obs_inv s = (set (live (observers s)) \<subseteq> set (registered (observerRefs s)))"

definition hasElement :: "dom \<Rightarrow> group \<Rightarrow> bool" where
  "hasElement d g = (getElementById d (elementId (group_id g)) \<noteq> None)"

definition newObserver :: "group \<Rightarrow> observer" where
  "newObserver g =
     \<lparr>obs_group = group_id g, obs_target = elementId (group_id g), obs_connected = True\<rparr>"

text \<open>
  A sequence of changes of the group list: at each one the effect of lines 95-129 runs
  with the new props on the page as it then is.
\<close>

fun group_changes :: "(dom \<times> props) list \<Rightarrow> state \<Rightarrow> state" where
  "group_changes [] s = s"
| "group_changes ((d, p) # cs) s = group_changes cs (observeGroups d p s)"

subsection \<open>Example pages and props\<close>

text \<open>
  A page with fixed document geometry, scrolled to offset \<open>y\<close>: \<open>elements\<close> gives the
  document-relative top of each element by id, so the bounding rectangle of an element
  has the top \<open>t - y\<close>; \<open>nav\<close> is the rectangle of the navigator's container
  (\<open>None\<close> when it is not mounted).
\<close>

definition page :: "DOMRect option \<Rightarrow> (string \<times> real) list \<Rightarrow> real \<Rightarrow> dom" where
  "page nav elements y =
     \<lparr>navRef = nav,
      firstGroupRef =
        (case nav of
           None \<Rightarrow> None
         | Some _ \<Rightarrow>
             map_option (\<lambda>t. \<lparr>rect_top = t - y, rect_left = 0, rect_height = 0\<rparr>)
               (map_of elements ''first-group-marker'')),
      getElementById =
        (\<lambda>i. map_option (\<lambda>t. \<lparr>rect_top = t - y, rect_left = 0, rect_height = 0\<rparr>)
               (map_of elements i)),
      scrollY = y\<rparr>"

definition mounted :: "DOMRect option" where
  "mounted = Some \<lparr>rect_top = 0, rect_left = 24, rect_height = 80\<rparr>"

text \<open>Props with both callbacks supplied.\<close>

definition listening :: "group list \<Rightarrow> bool option \<Rightarrow> props" where
  "listening gs pinned = \<lparr>groups = gs, isPinned = pinned, onPinChange = True, onGroupClick = True\<rparr>"

definition team_docs :: "group list" where
  "team_docs = [\<lparr>group_id = 1, group_name = ''Team''\<rparr>, \<lparr>group_id = 2, group_name = ''Docs''\<rparr>]"

section \<open>Properties\<close>

subsection \<open>Printing and parsing ids\<close>

lemma of_char_digitChar: "d < 10 \<Longrightarrow> (of_char (digitChar d) :: nat) = 48 + d"
  by (simp add: digitChar_def)

lemma digitValue_digitChar: "d < 10 \<Longrightarrow> digitValue (digitChar d) = Some d"
  by (simp add: digitValue_def of_char_digitChar)

lemma digitChar_neq:
  assumes "d < 10" and "(of_char c :: nat) < 48"
  shows "digitChar d \<noteq> c"
proof
  assume "digitChar d = c"
  then have "(of_char (digitChar d) :: nat) = of_char c" by simp
  then show False using assms by (simp add: of_char_digitChar)
qed

lemma digitChar_neq_hi:
  assumes "d < 10" and "(of_char c :: nat) > 57"
  shows "digitChar d \<noteq> c"
proof
  assume "digitChar d = c"
  then have "(of_char (digitChar d) :: nat) = of_char c" by simp
  then show False using assms by (simp add: of_char_digitChar)
qed

lemma digitChar_not_space: "d < 10 \<Longrightarrow> \<not> isWhiteSpace (digitChar d)"
  by (simp add: isWhiteSpace_def digitChar_neq)

lemma digitChar_isDigit: "d < 10 \<Longrightarrow> isDigitOf 10 (digitChar d)"
  by (simp add: isDigitOf_def digitValue_digitChar)

lemma decimal_showNat: "decimal (showNat n)"
proof (induction n rule: showNat.induct)
  case (1 n)
  show ?case
  proof (cases "n < 10")
    case True
    then show ?thesis by (subst showNat.simps) (auto simp: decimal_def)
  next
    case False
    have "\<exists>d<10. digitChar (n mod 10) = digitChar d"
      by (rule exI [of _ "n mod 10"]) simp
    then show ?thesis using False "1.IH"
      by (subst showNat.simps) (auto simp: decimal_def)
  qed
qed

lemma showNat_nonempty: "showNat n \<noteq> []"
  by (subst showNat.simps) simp

lemma mathInt_snoc: "mathInt R (Z @ [c]) = mathInt R Z * R + digitOr0 c"
  by (simp add: mathInt_def)

lemma digitOr0_digitChar: "d < 10 \<Longrightarrow> digitOr0 (digitChar d) = d"
  by (simp add: digitOr0_def digitValue_digitChar)

lemma mathInt_showNat: "mathInt 10 (showNat n) = n"
proof (induction n rule: showNat.induct)
  case (1 n)
  show ?case
  proof (cases "n < 10")
    case True
    then show ?thesis
      by (subst showNat.simps) (simp add: mathInt_def digitOr0_digitChar)
  next
    case False
    then have "mathInt 10 (showNat (n div 10)) = n div 10" using "1.IH" by simp
    then show ?thesis using False
      by (subst showNat.simps) (simp add: mathInt_snoc digitOr0_digitChar)
  qed
qed

lemma decimal_takeWhile: "decimal Z \<Longrightarrow> takeWhile (isDigitOf 10) Z = Z"
  by (rule takeWhile_eq_all_conv[THEN iffD2]) (auto simp: decimal_def digitChar_isDigit)

lemma decimal_no_prefix:
  assumes "decimal Z"
  shows "take 2 Z \<noteq> ''0x''" and "take 2 Z \<noteq> ''0X''"
proof -
  have x: "\<And>d. d < 10 \<Longrightarrow> digitChar d \<noteq> CHR ''x''" by (rule digitChar_neq_hi) simp_all
  have X: "\<And>d. d < 10 \<Longrightarrow> digitChar d \<noteq> CHR ''X''" by (rule digitChar_neq_hi) simp_all
  show "take 2 Z \<noteq> ''0x''"
  proof (cases Z)
    case Nil then show ?thesis by simp
  next
    case (Cons a Y)
    show ?thesis
    proof (cases Y)
      case Nil then show ?thesis using Cons by simp
    next
      case (Cons b Y')
      then have "\<exists>d<10. b = digitChar d" using assms \<open>Z = a # Y\<close> by (simp add: decimal_def)
      then show ?thesis using x Cons \<open>Z = a # Y\<close> by auto
    qed
  qed
  show "take 2 Z \<noteq> ''0X''"
  proof (cases Z)
    case Nil then show ?thesis by simp
  next
    case (Cons a Y)
    show ?thesis
    proof (cases Y)
      case Nil then show ?thesis using Cons by simp
    next
      case (Cons b Y')
      then have "\<exists>d<10. b = digitChar d" using assms \<open>Z = a # Y\<close> by (simp add: decimal_def)
      then show ?thesis using X Cons \<open>Z = a # Y\<close> by auto
    qed
  qed
qed

lemma decimal_head:
  assumes "decimal Z" and "Z \<noteq> []"
  shows "dropWhile isWhiteSpace Z = Z" and "take (Suc 0) Z \<noteq> ''-''"
    and "take (Suc 0) Z \<noteq> ''+''"
proof -
  obtain a Y where Z: "Z = a # Y" using assms(2) by (cases Z) auto
  then obtain d where d: "d < 10" "a = digitChar d" using assms(1) by (auto simp: decimal_def)
  show "dropWhile isWhiteSpace Z = Z" using Z d by (simp add: digitChar_not_space)
  show "take (Suc 0) Z \<noteq> ''-''" using Z d by (simp add: digitChar_neq)
  show "take (Suc 0) Z \<noteq> ''+''" using Z d by (simp add: digitChar_neq)
qed

lemma parseInt_decimal:
  assumes "decimal Z" and "Z \<noteq> []"
  shows "parseInt Z = Num (int (mathInt 10 Z))"
  using assms
  by (simp add: parseInt_def decimal_head decimal_no_prefix decimal_takeWhile)

lemma parseInt_minus_decimal:
  assumes "decimal Z" and "Z \<noteq> []"
  shows "parseInt (CHR ''-'' # Z) = Num (- int (mathInt 10 Z))"
  using assms
  by (simp add: parseInt_def isWhiteSpace_def decimal_no_prefix decimal_takeWhile)

lemma parseInt_toString: "parseInt (toString i) = Num i"
  by (simp add: toString_def parseInt_decimal parseInt_minus_decimal decimal_showNat
      showNat_nonempty mathInt_showNat)

lemma replace_prefix: "replace pat [] (pat @ Z) = Z"
proof (cases "pat @ Z")
  case Nil
  then show ?thesis by simp
next
  case (Cons a Y)
  have "take (length pat) (a # Y) = pat" and "drop (length pat) (a # Y) = Z"
    using Cons [symmetric] by simp_all
  then have "replace pat [] (a # Y) = Z" by simp
  then show ?thesis using Cons by simp
qed

lemma decode_elementId: "parseInt (replace ''group-'' '''' (elementId i)) = Num i"
  unfolding elementId_def by (simp only: replace_prefix parseInt_toString)

lemma elementId_inject:
  assumes "elementId i = elementId j"
  shows "i = j"
proof -
  have "parseInt (replace ''group-'' '''' (elementId i)) =
        parseInt (replace ''group-'' '''' (elementId j))"
    using assms by (rule arg_cong)
  then have "Num i = Num j" by (simp only: decode_elementId)
  then show ?thesis by simp
qed

subsection \<open>The active group\<close>

lemma observerCallback_none:
  "\<forall>e \<in> set entries. \<not> isIntersecting e \<Longrightarrow> observerCallback gid entries s = s"
  by (induction entries arbitrary: s) auto

lemma observerCallback_some:
  "\<exists>e \<in> set entries. isIntersecting e \<Longrightarrow>
     activeGroupId (observerCallback gid entries s) = Some (elementId gid)"
proof (induction entries arbitrary: s)
  case Nil
  then show ?case by simp
next
  case (Cons e entries)
  show ?case
  proof (cases "\<exists>e' \<in> set entries. isIntersecting e'")
    case True
    then show ?thesis using Cons.IH by simp
  next
    case False
    then have "isIntersecting e" using Cons.prems by auto
    moreover have "\<forall>e' \<in> set entries. \<not> isIntersecting e'" using False by simp
    ultimately show ?thesis by (simp add: observerCallback_none)
  qed
qed

lemma observerCallback_keeps:
  "activeGroupId s \<noteq> None \<Longrightarrow> activeGroupId (observerCallback gid entries s) \<noteq> None"
  by (induction entries arbitrary: s) auto

lemma deliver_keeps:
  "activeGroupId s \<noteq> None \<Longrightarrow> activeGroupId (deliver events s) \<noteq> None"
proof (induction events arbitrary: s)
  case Nil
  then show ?case by simp
next
  case (Cons ev events)
  obtain gid entries where ev: "ev = (gid, entries)" by (cases ev)
  have "activeGroupId (observerCallback gid entries s) \<noteq> None"
    using Cons.prems by (rule observerCallback_keeps)
  then show ?case using Cons.IH ev by simp
qed

subsection \<open>The scroll handler\<close>

lemma handleScroll_navPosition: "navPosition (fst (handleScroll d p s)) = navPosition s"
  by (simp add: handleScroll_def split: option.split)

lemma firstGroupTop_handleScroll:
  "firstGroupTop d' (fst (handleScroll d p s)) = firstGroupTop d' s"
  by (simp add: firstGroupTop_def handleScroll_navPosition split: option.split)

lemma handleScroll_isSticky:
  "navRef d \<noteq> None \<Longrightarrow> isSticky (fst (handleScroll d p s)) = (scrollY d > firstGroupTop d s)"
  by (auto simp: handleScroll_def)

lemma handleScroll_effects:
  "snd (handleScroll d p s) =
     (if navRef d \<noteq> None \<and> onPinChange p \<and> truthy (isPinned p) \<noteq> (scrollY d > firstGroupTop d s)
      then [OnPinChange (scrollY d > firstGroupTop d s)] else [])"
  by (auto simp: handleScroll_def split: option.split)

lemma scroll_events_reflecting:
  assumes "onPinChange p" and "\<forall>d \<in> set ds. navRef d \<noteq> None"
    and "truthy (isPinned p) = isSticky s"
  shows "scroll_events reflecting ds p s =
           map OnPinChange (changes (isSticky s) (map (\<lambda>d. scrollY d > firstGroupTop d s) ds))"
  using assms
proof (induction ds arbitrary: p s)
  case Nil
  then show ?case by simp
next
  case (Cons d ds)
  let ?new = "scrollY d > firstGroupTop d s"
  let ?s' = "fst (handleScroll d p s)"
  let ?es = "snd (handleScroll d p s)"
  let ?p' = "reflecting p ?es"
  have nav: "navRef d \<noteq> None" using Cons.prems(2) by simp
  have sticky: "isSticky ?s' = ?new" using nav by (rule handleScroll_isSticky)
  have es: "?es = (if isSticky s \<noteq> ?new then [OnPinChange ?new] else [])"
    using nav Cons.prems(1,3) by (simp add: handleScroll_effects)
  have p1: "onPinChange ?p'" using Cons.prems(1) by (simp add: es)
  have p2: "truthy (isPinned ?p') = isSticky ?s'"
    using Cons.prems(3) by (simp add: es sticky truthy_def)
  have "scroll_events reflecting ds ?p' ?s' =
          map OnPinChange (changes (isSticky ?s') (map (\<lambda>d. scrollY d > firstGroupTop d ?s') ds))"
    using p1 _ p2 by (rule Cons.IH) (use Cons.prems(2) in simp)
  then have rest: "scroll_events reflecting ds ?p' ?s' =
          map OnPinChange (changes ?new (map (\<lambda>d. scrollY d > firstGroupTop d s) ds))"
    by (simp only: sticky firstGroupTop_handleScroll)
  have "scroll_events reflecting (d # ds) p s = ?es @ scroll_events reflecting ds ?p' ?s'"
    by simp
  also have "\<dots> = map OnPinChange (changes (isSticky s) (?new # map (\<lambda>d. scrollY d > firstGroupTop d s) ds))"
    using rest by (simp add: es)
  finally show ?case by simp
qed

lemma changes_same: "\<forall>x \<in> set xs. x = b \<Longrightarrow> changes b (xs @ ys) = changes b ys"
  by (induction xs) auto

lemma changes_flip:
  "xs \<noteq> [] \<Longrightarrow> \<forall>x \<in> set xs. x \<noteq> b \<Longrightarrow> changes b (xs @ ys) = (\<not> b) # changes (\<not> b) ys"
proof (induction xs)
  case Nil
  then show ?case by simp
next
  case (Cons x xs)
  have x: "x = (\<not> b)" using Cons.prems(2) by auto
  have "\<forall>y \<in> set xs. y = (\<not> b)" using Cons.prems(2) by auto
  then have "changes (\<not> b) (xs @ ys) = changes (\<not> b) ys" by (rule changes_same)
  then show ?case using x by simp
qed

subsection \<open>The observers\<close>

lemma length_disconnect [simp]: "length (disconnect i os) = length os"
  by (simp add: disconnect_def)

lemma length_disconnectAll [simp]: "length (disconnectAll refs os) = length os"
  by (induction refs os rule: disconnectAll.induct) simp_all

lemma disconnect_nth:
  "i < length os \<Longrightarrow>
     obs_connected (disconnect j os ! i) = (obs_connected (os ! i) \<and> i \<noteq> j)"
  by (auto simp: disconnect_def nth_list_update)

lemma registered_simps [simp]:
  "registered [] = []"
  "registered ((k, None) # refs) = registered refs"
  "registered ((k, Some i) # refs) = i # registered refs"
  "registered (refs @ refs') = registered refs @ registered refs'"
  by (simp_all add: registered_def)

lemma disconnectAll_nth:
  "i < length os \<Longrightarrow>
     obs_connected (disconnectAll refs os ! i) =
       (obs_connected (os ! i) \<and> i \<notin> set (registered refs))"
  by (induction refs os rule: disconnectAll.induct) (auto simp: disconnect_nth)

lemma live_iff: "i \<in> set (live os) \<longleftrightarrow> i < length os \<and> obs_connected (os ! i)"
  by (auto simp: live_def)

lemma clearObservers_disposes:
  assumes "obs_inv s"
  shows "filter obs_connected (observers (clearObservers s)) = []"
proof -
  let ?os = "observers s"
  let ?refs = "observerRefs s"
  have "\<not> obs_connected x" if x: "x \<in> set (disconnectAll ?refs ?os)" for x
  proof
    assume conn: "obs_connected x"
    obtain i where "i < length (disconnectAll ?refs ?os)" and xi: "disconnectAll ?refs ?os ! i = x"
      using x unfolding in_set_conv_nth by blast
    then have i: "i < length ?os" by simp
    have "obs_connected (disconnectAll ?refs ?os ! i)" using conn xi by simp
    then have c: "obs_connected (?os ! i)" and r: "i \<notin> set (registered ?refs)"
      using disconnectAll_nth [OF i, of ?refs] by simp_all
    have "i \<in> set (live ?os)" using i c by (simp add: live_iff)
    then have "i \<in> set (registered ?refs)" using assms unfolding obs_inv_def by (rule subsetD [rotated])
    then show False using r by simp
  qed
  then have "filter obs_connected (disconnectAll ?refs ?os) = []"
    unfolding filter_empty_conv by blast
  then show ?thesis by (simp add: clearObservers_def)
qed

lemma observers_createObservers:
  "observers (createObservers d gs s) = observers s @ map newObserver (filter (hasElement d) gs)"
proof (induction gs arbitrary: s)
  case Nil
  then show ?case by simp
next
  case (Cons g gs)
  show ?case
  proof (cases "getElementById d (elementId (group_id g))")
    case None
    then show ?thesis using Cons.IH [of s] by (simp add: hasElement_def)
  next
    case (Some element)
    then show ?thesis
      using Cons.IH [of "s\<lparr>observerRefs :=
              assign (elementId (group_id g)) (Some (length (observers s))) (observerRefs s),
            observers := observers s @ [newObserver g]\<rparr>"]
      by (simp add: hasElement_def newObserver_def)
  qed
qed

lemma assign_fresh: "k \<notin> fst ` set refs \<Longrightarrow> assign k v refs = refs @ [(k, v)]"
  by (induction refs) auto

lemma upt_shift: "n # [Suc n ..< Suc n + m] = [n ..< n + Suc m]"
proof -
  have "[n ..< n + Suc m] = n # [Suc n ..< n + Suc m]" by (rule upt_conv_Cons) simp
  then show ?thesis by simp
qed

lemma createObservers_absent:
  "getElementById d (elementId (group_id g)) = None \<Longrightarrow>
     createObservers d (g # gs) s = createObservers d gs s"
  by simp

lemma createObservers_present:
  "getElementById d (elementId (group_id g)) = Some element \<Longrightarrow>
     createObservers d (g # gs) s =
       createObservers d gs
         (s\<lparr>observerRefs :=
              assign (elementId (group_id g)) (Some (length (observers s))) (observerRefs s),
            observers := observers s @ [newObserver g]\<rparr>)"
  by (simp add: newObserver_def)

lemma registered_createObservers:
  assumes "distinct (map group_id gs)"
    and "\<forall>g \<in> set gs. elementId (group_id g) \<notin> fst ` set (observerRefs s)"
  shows "registered (observerRefs (createObservers d gs s)) =
           registered (observerRefs s)
           @ [length (observers s) ..< length (observers s) + length (filter (hasElement d) gs)]"
  using assms
proof (induction gs arbitrary: s)
  case Nil
  then show ?case by simp
next
  case (Cons g gs)
  let ?k = "elementId (group_id g)"
  let ?n = "length (observers s)"
  let ?m = "length (filter (hasElement d) gs)"
  have dist: "distinct (map group_id gs)" using Cons.prems(1) by simp
  have fresh: "?k \<notin> fst ` set (observerRefs s)" using Cons.prems(2) by simp
  have rest: "\<forall>g' \<in> set gs. elementId (group_id g') \<notin> fst ` set (observerRefs s)"
    using Cons.prems(2) by simp
  show ?case
  proof (cases "getElementById d ?k")
    case None
    have "\<not> hasElement d g" using None by (simp add: hasElement_def)
    then have m: "length (filter (hasElement d) (g # gs)) = ?m" by simp
    have "registered (observerRefs (createObservers d gs s)) =
           registered (observerRefs s) @ [?n ..< ?n + ?m]"
      using dist rest by (rule Cons.IH)
    then show ?thesis by (simp only: createObservers_absent [OF None] m)
  next
    case (Some element)
    let ?s1 = "s\<lparr>observerRefs := assign ?k (Some ?n) (observerRefs s),
                  observers := observers s @ [newObserver g]\<rparr>"
    have refs1: "observerRefs ?s1 = observerRefs s @ [(?k, Some ?n)]"
      using fresh by (simp add: assign_fresh)
    have len1: "length (observers ?s1) = Suc ?n" by simp
    have "hasElement d g" using Some by (simp add: hasElement_def)
    then have m: "length (filter (hasElement d) (g # gs)) = Suc ?m" by simp
    have other: "\<forall>g' \<in> set gs. elementId (group_id g') \<notin> fst ` set (observerRefs ?s1)"
    proof
      fix g' assume g': "g' \<in> set gs"
      have "group_id g \<notin> group_id ` set gs" using Cons.prems(1) by simp
      then have "group_id g' \<noteq> group_id g" using g' by (metis imageI)
      then have "elementId (group_id g') \<noteq> ?k" using elementId_inject by blast
      moreover have "elementId (group_id g') \<notin> fst ` set (observerRefs s)"
        using rest g' by simp
      ultimately show "elementId (group_id g') \<notin> fst ` set (observerRefs ?s1)"
        by (simp only: refs1) auto
    qed
    have "registered (observerRefs (createObservers d gs ?s1)) =
            registered (observerRefs ?s1)
            @ [length (observers ?s1) ..< length (observers ?s1) + ?m]"
      using dist other by (rule Cons.IH)
    also have "\<dots> = registered (observerRefs s) @ (?n # [Suc ?n ..< Suc ?n + ?m])"
      by (simp only: refs1 len1 registered_simps append_assoc append.simps)
    also have "\<dots> = registered (observerRefs s) @ [?n ..< ?n + Suc ?m]"
      by (simp only: upt_shift)
    finally show ?thesis by (simp only: createObservers_present [OF Some] m)
  qed
qed

lemma obs_inv_initial: "obs_inv initial_state"
  by (simp add: obs_inv_def initial_state_def live_def)

lemma observeGroups_connected:
  assumes "obs_inv s"
  shows "filter obs_connected (observers (observeGroups d p s)) =
           map newObserver (filter (hasElement d) (groups p))"
proof -
  have "filter obs_connected (observers (clearObservers s)) = []"
    using assms by (rule clearObservers_disposes)
  moreover have "observers (observeGroups d p s) =
      observers (clearObservers s) @ map newObserver (filter (hasElement d) (groups p))"
    by (simp add: observeGroups_def observers_createObservers)
  moreover have "filter obs_connected (map newObserver (filter (hasElement d) (groups p))) =
      map newObserver (filter (hasElement d) (groups p))"
    by (simp add: newObserver_def)
  ultimately show ?thesis by simp
qed

lemma observeGroups_obs_inv:
  assumes "obs_inv s" and "distinct (map group_id (groups p))"
  shows "obs_inv (observeGroups d p s)"
proof -
  let ?c = "clearObservers s"
  let ?new = "map newObserver (filter (hasElement d) (groups p))"
  have old: "filter obs_connected (observers ?c) = []"
    using assms(1) by (rule clearObservers_disposes)
  have obs: "observers (observeGroups d p s) = observers ?c @ ?new"
    by (simp add: observeGroups_def observers_createObservers)
  have "observerRefs ?c = []" by (simp add: clearObservers_def)
  then have reg: "registered (observerRefs (observeGroups d p s)) =
      [length (observers ?c) ..< length (observers ?c) + length (filter (hasElement d) (groups p))]"
    using registered_createObservers [of "groups p" ?c d] assms(2)
    by (simp add: observeGroups_def)
  show ?thesis
    unfolding obs_inv_def
  proof
    fix i assume "i \<in> set (live (observers (observeGroups d p s)))"
    then have i: "i < length (observers ?c) + length ?new"
      and c: "obs_connected ((observers ?c @ ?new) ! i)"
      by (simp_all add: live_iff obs)
    have "\<not> i < length (observers ?c)"
    proof
      assume lt: "i < length (observers ?c)"
      then have "obs_connected (observers ?c ! i)" using c by (simp add: nth_append)
      then have "observers ?c ! i \<in> set (filter obs_connected (observers ?c))"
        using lt by simp
      then show False using old by simp
    qed
    then show "i \<in> set (registered (observerRefs (observeGroups d p s)))"
      using i by (simp add: reg)
  qed
qed

lemma distinct_elementIds:
  assumes "distinct (map group_id gs)"
  shows "distinct (map (\<lambda>g. elementId (group_id g)) (filter P gs))"
proof -
  have "inj_on (\<lambda>g. elementId (group_id g)) (set (filter P gs))"
  proof (rule inj_onI)
    fix x y
    assume "x \<in> set (filter P gs)" and "y \<in> set (filter P gs)"
      and "elementId (group_id x) = elementId (group_id y)"
    then have "x \<in> set gs" "y \<in> set gs" "group_id x = group_id y"
      using elementId_inject by auto
    then show "x = y" using assms by (simp add: distinct_map inj_on_def)
  qed
  moreover have "distinct (filter P gs)"
    using assms by (simp add: distinct_map)
  ultimately show ?thesis by (simp add: distinct_map)
qed

text \<open>
  The invariant holds in every state the component reaches by changes of the group
  list, as long as each list has distinct ids. (The other handlers do not touch the
  observers.)
\<close>

lemma obs_inv_group_changes:
  assumes "obs_inv s" and "\<forall>c \<in> set cs. distinct (map group_id (groups (snd c)))"
  shows "obs_inv (group_changes cs s)"
  using assms
proof (induction cs arbitrary: s)
  case Nil
  then show ?case by simp
next
  case (Cons c cs)
  obtain d p where c: "c = (d, p)" by (cases c)
  have "distinct (map group_id (groups p))" using Cons.prems(2) c by simp
  then have "obs_inv (observeGroups d p s)"
    using Cons.prems(1) by (intro observeGroups_obs_inv)
  then have "obs_inv (group_changes cs (observeGroups d p s))"
    using Cons.prems(2) by (intro Cons.IH) simp_all
  then show ?case using c by simp
qed

lemma obs_inv_handlers:
  "obs_inv (fst (handleScroll d p s)) = obs_inv s"
  "obs_inv (fst (handleNavClick d p s g)) = obs_inv s"
  "obs_inv (updateNavPosition d s) = obs_inv s"
  "obs_inv (observerCallback gid entries s) = obs_inv s"
  "obs_inv (handleMouseEnter s g) = obs_inv s"
  "obs_inv (handleMouseLeave s g) = obs_inv s"
proof -
  show "obs_inv (fst (handleScroll d p s)) = obs_inv s"
    by (simp add: obs_inv_def handleScroll_def split: option.split)
  show "obs_inv (fst (handleNavClick d p s g)) = obs_inv s"
    by (simp add: obs_inv_def handleNavClick_def)
  show "obs_inv (updateNavPosition d s) = obs_inv s"
    by (simp add: obs_inv_def updateNavPosition_def split: option.split)
  show "obs_inv (observerCallback gid entries s) = obs_inv s"
    by (induction entries arbitrary: s) (simp_all add: obs_inv_def)
  show "obs_inv (handleMouseEnter s g) = obs_inv s"
    by (simp add: obs_inv_def handleMouseEnter_def)
  show "obs_inv (handleMouseLeave s g) = obs_inv s"
    by (simp add: obs_inv_def handleMouseLeave_def)
qed

subsection \<open>Ids of the examples\<close>

lemma elementId_examples:
  "elementId 1 = ''group-1''" "elementId 2 = ''group-2''" "elementId 3 = ''group-3''"
  by code_simp+

subsection \<open>The calls of a selection\<close>

lemma selections_handleNavClick:
  "selections (snd (handleNavClick d p s groupId)) =
     (if onGroupClick p then [parseInt (replace ''group-'' '''' groupId)] else [])"
  by (cases "getElementById d groupId") (simp_all add: handleNavClick_def selections_def)

section \<open>The claims\<close>

subsection \<open>C1: the pin rule\<close>

text \<open>
  Claim C1: on every scroll evaluation the pin state becomes Pinned exactly when the
  scroll offset strictly exceeds the anchor top, and Floating when it is at or below it;
  the anchor top is taken from the live marker (its bounding top plus the scroll offset)
  when the marker is in the document, and from the stored \<^verbatim>\<open>navPosition.top\<close> when it is
  not. A scroll evaluation is a run of the handler past its guard (line 64), that is,
  with the navigator's container mounted; behind the guard nothing is evaluated.
\<close>

theorem pin_state_rule:
  assumes "navRef d \<noteq> None"
  shows "isSticky (fst (handleScroll d p s)) = (scrollY d > firstGroupTop d s)
   \<and> (getElementById d ''first-group-marker'' = Some marker \<longrightarrow>
        firstGroupTop d s = rect_top marker + scrollY d
        \<and> isSticky (fst (handleScroll d p s)) = (scrollY d > rect_top marker + scrollY d))
   \<and> (getElementById d ''first-group-marker'' = None \<longrightarrow>
        firstGroupTop d s = nav_top (navPosition s)
        \<and> isSticky (fst (handleScroll d p s)) = (scrollY d > nav_top (navPosition s)))"
  using assms by (auto simp: handleScroll_def firstGroupTop_def)

theorem pin_state_rule_witness:
  "isSticky (fst (handleScroll (page mounted [(''first-group-marker'', 500)] 600)
       (listening team_docs None) initial_state))
   \<and> \<not> isSticky (fst (handleScroll (page mounted [(''first-group-marker'', 500)] 400)
       (listening team_docs None) (initial_state\<lparr>isSticky := True\<rparr>)))
   \<and> \<not> isSticky (fst (handleScroll (page mounted [(''first-group-marker'', 500)] 500)
       (listening team_docs None) (initial_state\<lparr>isSticky := True\<rparr>)))
   \<and> \<not> isSticky (fst (handleScroll (page mounted [] 400) (listening team_docs None)
       (initial_state\<lparr>navPosition := \<lparr>nav_top = 500, nav_left = 24, nav_height = 80\<rparr>\<rparr>)))
   \<and> isSticky (fst (handleScroll (page mounted [] 501) (listening team_docs None)
       (initial_state\<lparr>navPosition := \<lparr>nav_top = 500, nav_left = 24, nav_height = 80\<rparr>\<rparr>)))"
proof -
  have m: "navRef (page mounted els y) \<noteq> None" for els y
    by (simp add: page_def mounted_def)
  show ?thesis
    using
      pin_state_rule [OF m [of "[(''first-group-marker'', 500)]" 600], of
        "listening team_docs None" initial_state
        "\<lparr>rect_top = - 100, rect_left = 0, rect_height = 0\<rparr>"]
      pin_state_rule [OF m [of "[(''first-group-marker'', 500)]" 400], of
        "listening team_docs None" "initial_state\<lparr>isSticky := True\<rparr>"
        "\<lparr>rect_top = 100, rect_left = 0, rect_height = 0\<rparr>"]
      pin_state_rule [OF m [of "[(''first-group-marker'', 500)]" 500], of
        "listening team_docs None" "initial_state\<lparr>isSticky := True\<rparr>"
        "\<lparr>rect_top = 0, rect_left = 0, rect_height = 0\<rparr>"]
      pin_state_rule [OF m [of "[]" 400], of
        "listening team_docs None"
        "initial_state\<lparr>navPosition := \<lparr>nav_top = 500, nav_left = 24, nav_height = 80\<rparr>\<rparr>"
        "\<lparr>rect_top = 0, rect_left = 0, rect_height = 0\<rparr>"]
      pin_state_rule [OF m [of "[]" 501], of
        "listening team_docs None"
        "initial_state\<lparr>navPosition := \<lparr>nav_top = 500, nav_left = 24, nav_height = 80\<rparr>\<rparr>"
        "\<lparr>rect_top = 0, rect_left = 0, rect_height = 0\<rparr>"]
    by (simp add: page_def)
qed

subsection \<open>C2: one notification per change of the pin state\<close>

text \<open>
  Claim C2 says that \<^verbatim>\<open>onPinChange\<close> fires only when the pin state changes: once when
  the page is scrolled past the anchor top, once when it is scrolled back, never while
  the scrolling stays on one side.

  The handler does not compare the new pin state with the old one; it compares it with
  the \<^verbatim>\<open>isPinned\<close> prop (lines 76 and 82). With a parent that supplies \<^verbatim>\<open>onPinChange\<close> and
  leaves the optional \<^verbatim>\<open>isPinned\<close> out, two scroll events past the anchor top 500 both call
  \<^verbatim>\<open>onPinChange(true)\<close>, though the state is Pinned after the first and stays so.
\<close>

theorem pin_notify_repeats_counterexample:
  "scroll_events ignoring
     [page mounted [(''first-group-marker'', 500)] 600,
      page mounted [(''first-group-marker'', 500)] 700]
     (listening team_docs None) initial_state
   = [OnPinChange True, OnPinChange True]
   \<and> isSticky (fst (handleScroll (page mounted [(''first-group-marker'', 500)] 600)
        (listening team_docs None) initial_state))
   \<and> isSticky (fst (handleScroll (page mounted [(''first-group-marker'', 500)] 700)
        (listening team_docs None)
        (fst (handleScroll (page mounted [(''first-group-marker'', 500)] 600)
           (listening team_docs None) initial_state))))"
  by (simp add: ignoring_def handleScroll_def firstGroupTop_def page_def mounted_def
      listening_def truthy_def initial_state_def)

text \<open>
  C2 as amended: when the parent passes back as \<^verbatim>\<open>isPinned\<close> the value it was last
  notified of (and \<^verbatim>\<open>isPinned\<close> agrees with the pin state at the start, the listener is
  supplied and the container is mounted), the notifications of a sequence of scroll
  events over a fixed anchor top \<open>T\<close> are exactly the changes of the pin state: starting
  Floating, scrolling past \<open>T\<close> and back calls \<^verbatim>\<open>onPinChange(true)\<close> once and then
  \<^verbatim>\<open>onPinChange(false)\<close> once, and events that stay on the side of the current state
  call nothing.
\<close>

theorem pin_notify_once_when_reflected:
  assumes "onPinChange p" and "truthy (isPinned p) = isSticky s"
    and "\<forall>d \<in> set (lows @ highs @ backs). navRef d \<noteq> None \<and> firstGroupTop d s = T"
  shows "scroll_events reflecting (lows @ highs @ backs) p s =
           map OnPinChange
             (changes (isSticky s) (map (\<lambda>d. scrollY d > T) (lows @ highs @ backs)))
         \<and> (\<not> isSticky s \<and> (\<forall>d \<in> set lows. scrollY d \<le> T)
              \<and> highs \<noteq> [] \<and> (\<forall>d \<in> set highs. scrollY d > T)
              \<and> backs \<noteq> [] \<and> (\<forall>d \<in> set backs. scrollY d \<le> T)
            \<longrightarrow> scroll_events reflecting (lows @ highs @ backs) p s =
                  [OnPinChange True, OnPinChange False])
         \<and> ((\<forall>d \<in> set (lows @ highs @ backs). (scrollY d > T) = isSticky s)
            \<longrightarrow> scroll_events reflecting (lows @ highs @ backs) p s = [])"
proof -
  let ?ds = "lows @ highs @ backs"
  have nav: "\<forall>d \<in> set ?ds. navRef d \<noteq> None" using assms(3) by blast
  have eq: "map (\<lambda>d. scrollY d > firstGroupTop d s) ?ds = map (\<lambda>d. scrollY d > T) ?ds"
    by (rule map_cong [OF refl]) (use assms(3) in auto)
  have "scroll_events reflecting ?ds p s =
      map OnPinChange (changes (isSticky s) (map (\<lambda>d. scrollY d > firstGroupTop d s) ?ds))"
    using assms(1) nav assms(2) by (rule scroll_events_reflecting)
  then have run: "scroll_events reflecting ?ds p s =
      map OnPinChange (changes (isSticky s) (map (\<lambda>d. scrollY d > T) ?ds))"
    by (simp only: eq)
  have once: "scroll_events reflecting ?ds p s = [OnPinChange True, OnPinChange False]"
    if "\<not> isSticky s" "\<forall>d \<in> set lows. scrollY d \<le> T" "highs \<noteq> []"
      "\<forall>d \<in> set highs. scrollY d > T" "backs \<noteq> []" "\<forall>d \<in> set backs. scrollY d \<le> T"
  proof -
    let ?f = "\<lambda>d. scrollY d > T"
    have 1: "changes False (map ?f lows @ map ?f highs @ map ?f backs)
               = changes False (map ?f highs @ map ?f backs)"
      using that(2) by (intro changes_same) (auto simp: not_less)
    have 2: "changes False (map ?f highs @ map ?f backs) = True # changes True (map ?f backs)"
      using changes_flip [of "map ?f highs" False "map ?f backs"] that(3,4)
      by (auto simp: not_less)
    have 3: "changes True (map ?f backs @ []) = False # changes False []"
      using changes_flip [of "map ?f backs" True "[]"] that(5,6) by (auto simp: not_less)
    show ?thesis using run that(1) 1 2 3 by simp
  qed
  have none: "scroll_events reflecting ?ds p s = []"
    if "\<forall>d \<in> set ?ds. (scrollY d > T) = isSticky s"
  proof -
    have "changes (isSticky s) (map (\<lambda>d. scrollY d > T) ?ds @ []) = changes (isSticky s) []"
      using that by (intro changes_same) auto
    then show ?thesis using run by simp
  qed
  show ?thesis using run once none by blast
qed

theorem pin_notify_once_when_reflected_witness:
  "scroll_events reflecting
     ([page mounted [(''first-group-marker'', 500)] 400]
      @ [page mounted [(''first-group-marker'', 500)] 600,
         page mounted [(''first-group-marker'', 500)] 700]
      @ [page mounted [(''first-group-marker'', 500)] 300])
     (listening team_docs None) initial_state
   = [OnPinChange True, OnPinChange False]
   \<and> scroll_events reflecting
     ([page mounted [(''first-group-marker'', 500)] 400] @ []
      @ [page mounted [(''first-group-marker'', 500)] 300])
     (listening team_docs None) initial_state
   = []"
proof -
  have 1: "onPinChange (listening team_docs None)"
    by (simp add: listening_def)
  have 2: "truthy (isPinned (listening team_docs None)) = isSticky initial_state"
    by (simp add: listening_def truthy_def initial_state_def)
  have 3: "\<forall>d \<in> set ([page mounted [(''first-group-marker'', 500)] 400]
      @ [page mounted [(''first-group-marker'', 500)] 600,
         page mounted [(''first-group-marker'', 500)] 700]
      @ [page mounted [(''first-group-marker'', 500)] 300]).
      navRef d \<noteq> None \<and> firstGroupTop d initial_state = 500"
    by (simp add: page_def mounted_def firstGroupTop_def)
  have 4: "\<forall>d \<in> set ([page mounted [(''first-group-marker'', 500)] 400] @ []
      @ [page mounted [(''first-group-marker'', 500)] 300]).
      navRef d \<noteq> None \<and> firstGroupTop d initial_state = 500"
    by (simp add: page_def mounted_def firstGroupTop_def)
  have 5: "\<forall>d \<in> set ([page mounted [(''first-group-marker'', 500)] 400] @ []
      @ [page mounted [(''first-group-marker'', 500)] 300]).
      (scrollY d > 500) = isSticky initial_state"
    by (simp add: page_def initial_state_def)
  have a: "scroll_events reflecting
     ([page mounted [(''first-group-marker'', 500)] 400]
      @ [page mounted [(''first-group-marker'', 500)] 600,
         page mounted [(''first-group-marker'', 500)] 700]
      @ [page mounted [(''first-group-marker'', 500)] 300])
     (listening team_docs None) initial_state
   = [OnPinChange True, OnPinChange False]"
    using pin_notify_once_when_reflected [OF 1 2 3]
    by (simp add: page_def initial_state_def)
  have b: "scroll_events reflecting
     ([page mounted [(''first-group-marker'', 500)] 400] @ []
      @ [page mounted [(''first-group-marker'', 500)] 300])
     (listening team_docs None) initial_state
   = []"
    by (rule mp [OF pin_notify_once_when_reflected [OF 1 2 4, THEN conjunct2, THEN conjunct2] 5])
  show ?thesis using a b by (simp only: simp_thms)
qed

subsection \<open>C3: the notification and the flag of the parent\<close>

text \<open>
  Claim C3: on every scroll evaluation (a run of the handler past its guard, with a
  listener supplied), \<^verbatim>\<open>onPinChange\<close> is not invoked when the \<^verbatim>\<open>isPinned\<close> flag the parent
  supplies already equals the newly computed pin state, and is invoked, once and with
  the new state, when they differ. The first half needs none of the provisos.
\<close>

theorem pin_notify_rule:
  assumes "navRef d \<noteq> None" and "onPinChange p" and "isPinned p = Some flag"
  shows "(flag = isSticky (fst (handleScroll d p s)) \<longrightarrow> snd (handleScroll d p s) = [])
   \<and> (flag \<noteq> isSticky (fst (handleScroll d p s)) \<longrightarrow>
        snd (handleScroll d p s) = [OnPinChange (isSticky (fst (handleScroll d p s)))])
   \<and> isSticky (fst (handleScroll d p s)) = (scrollY d > firstGroupTop d s)
   \<and> (\<forall>d' p'. isPinned p' = Some (scrollY d' > firstGroupTop d' s) \<longrightarrow>
          snd (handleScroll d' p' s) = [])"
  using assms by (auto simp: handleScroll_def truthy_def split: option.split)

theorem pin_notify_rule_witness:
  "snd (handleScroll (page mounted [(''first-group-marker'', 500)] 400)
       (listening team_docs (Some False)) initial_state) = []
   \<and> snd (handleScroll (page mounted [(''first-group-marker'', 500)] 600)
       (listening team_docs (Some False)) initial_state) = [OnPinChange True]
   \<and> snd (handleScroll (page mounted [(''first-group-marker'', 500)] 400)
       (listening team_docs (Some True)) (initial_state\<lparr>isSticky := True\<rparr>)) = [OnPinChange False]
   \<and> snd (handleScroll (page mounted [(''first-group-marker'', 500)] 600)
       (listening team_docs (Some True)) (initial_state\<lparr>isSticky := True\<rparr>)) = []"
proof -
  have m: "navRef (page mounted els y) \<noteq> None" for els y
    by (simp add: page_def mounted_def)
  have l: "onPinChange (listening gs f)" for gs f
    by (simp add: listening_def)
  have f: "isPinned (listening gs (Some b)) = Some b" for gs b
    by (simp add: listening_def)
  have sticky: "isSticky (fst (handleScroll (page mounted [(''first-group-marker'', 500)] y) q s))
      = (y > 500)" for y q s
    by (simp add: handleScroll_def firstGroupTop_def page_def mounted_def)
  show ?thesis
    using
      pin_notify_rule [OF m [of "[(''first-group-marker'', 500)]" 400] l [of team_docs "Some False"]
        f [of team_docs False], of initial_state]
      pin_notify_rule [OF m [of "[(''first-group-marker'', 500)]" 600] l [of team_docs "Some False"]
        f [of team_docs False], of initial_state]
      pin_notify_rule [OF m [of "[(''first-group-marker'', 500)]" 400] l [of team_docs "Some True"]
        f [of team_docs True], of "initial_state\<lparr>isSticky := True\<rparr>"]
      pin_notify_rule [OF m [of "[(''first-group-marker'', 500)]" 600] l [of team_docs "Some True"]
        f [of team_docs True], of "initial_state\<lparr>isSticky := True\<rparr>"]
    by (simp add: sticky)
qed

subsection \<open>C4: the active group is sticky\<close>

text \<open>
  Claim C4: once \<^verbatim>\<open>activeGroupId\<close> holds some group's id, no visibility event resets it
  to null. A callback whose entries are all leaving (none is intersecting) leaves the
  state as it is; a callback with an entering entry sets the active id to the id of the
  callback's group, whatever it was before; so after any sequence of callbacks an id
  that was set is still set.
\<close>

theorem active_group_sticky:
  "(activeGroupId s \<noteq> None \<longrightarrow> activeGroupId (deliver events s) \<noteq> None)
   \<and> ((\<forall>e \<in> set entries. \<not> isIntersecting e) \<longrightarrow> observerCallback gid entries s = s)
   \<and> ((\<exists>e \<in> set entries. isIntersecting e) \<longrightarrow>
        activeGroupId (observerCallback gid entries s) = Some (elementId gid))"
  using deliver_keeps observerCallback_none observerCallback_some by blast

theorem active_group_sticky_witness:
  "activeGroupId
     (deliver [(1, [\<lparr>isIntersecting = False\<rparr>]), (2, [\<lparr>isIntersecting = False\<rparr>])]
        (initial_state\<lparr>activeGroupId := Some ''group-1''\<rparr>)) \<noteq> None
   \<and> observerCallback 1 [\<lparr>isIntersecting = False\<rparr>]
        (initial_state\<lparr>activeGroupId := Some ''group-1''\<rparr>)
      = initial_state\<lparr>activeGroupId := Some ''group-1''\<rparr>
   \<and> activeGroupId
        (observerCallback 2 [\<lparr>isIntersecting = False\<rparr>, \<lparr>isIntersecting = True\<rparr>]
           (initial_state\<lparr>activeGroupId := Some ''group-1''\<rparr>))
      = Some ''group-2''"
  using
    active_group_sticky [of "initial_state\<lparr>activeGroupId := Some ''group-1''\<rparr>"
      "[(1, [\<lparr>isIntersecting = False\<rparr>]), (2, [\<lparr>isIntersecting = False\<rparr>])]"
      "[\<lparr>isIntersecting = False\<rparr>]" 1]
    active_group_sticky [of "initial_state\<lparr>activeGroupId := Some ''group-1''\<rparr>" "[]"
      "[\<lparr>isIntersecting = False\<rparr>, \<lparr>isIntersecting = True\<rparr>]" 2]
  by (simp add: elementId_examples)

subsection \<open>C5: the scroll target of a selection\<close>

text \<open>
  Claim C5: when the target element of a selection exists, the one scroll the handler
  issues goes to the element's document-relative top (its bounding top plus the scroll
  offset) minus the navigator's height plus 20 when the state is Pinned, and minus 20
  when it is Floating; with the state Pinned, the height 80 and the element's top 1000
  the target is 900.
\<close>

theorem selection_scroll_target:
  "getElementById d groupId = Some element \<Longrightarrow>
     scrollTargets (snd (handleNavClick d p s groupId)) =
       [rect_top element + scrollY d
        - (if isSticky s then nav_height (navPosition s) + 20 else 20)]
     \<and> (isSticky s \<and> nav_height (navPosition s) = 80 \<and> rect_top element + scrollY d = 1000
        \<longrightarrow> scrollTargets (snd (handleNavClick d p s groupId)) = [900])"
  by (simp add: handleNavClick_def scrollTargets_def)

theorem selection_scroll_target_witness:
  "scrollTargets
     (snd (handleNavClick (page mounted [(''group-3'', 1000)] 600) (listening team_docs None)
        (initial_state\<lparr>isSticky := True,
           navPosition := \<lparr>nav_top = 500, nav_left = 24, nav_height = 80\<rparr>\<rparr>) ''group-3''))
   = [900]
   \<and> scrollTargets
     (snd (handleNavClick (page mounted [(''group-3'', 1000)] 0) (listening team_docs None)
        (initial_state\<lparr>navPosition := \<lparr>nav_top = 500, nav_left = 24, nav_height = 80\<rparr>\<rparr>)
        ''group-3''))
   = [980]"
  using
    selection_scroll_target [of "page mounted [(''group-3'', 1000)] 600" "''group-3''"
      "\<lparr>rect_top = 400, rect_left = 0, rect_height = 0\<rparr>"
      "listening team_docs None"
      "initial_state\<lparr>isSticky := True,
           navPosition := \<lparr>nav_top = 500, nav_left = 24, nav_height = 80\<rparr>\<rparr>"]
    selection_scroll_target [of "page mounted [(''group-3'', 1000)] 0" "''group-3''"
      "\<lparr>rect_top = 1000, rect_left = 0, rect_height = 0\<rparr>"
      "listening team_docs None"
      "initial_state\<lparr>navPosition := \<lparr>nav_top = 500, nav_left = 24, nav_height = 80\<rparr>\<rparr>"]
  by (simp add: page_def initial_state_def)

subsection \<open>C6: one observer per group\<close>

text \<open>
  Claim C6: on every change of the group list, the effect first disconnects every
  observer created before and only then creates new ones: after lines 97-100 no
  observer is connected. Afterwards the connected observers are, in the order of the
  list, exactly one for each group whose element exists (none for a group whose element
  is absent), no two of them observe the same group, and every one of them is held in
  \<^verbatim>\<open>observerRefs.current\<close>, so the same holds again at the next change. The group ids are
  distinct, as the data model assumes; the invariant holds in the initial state and in
  every state reached from it (\<open>obs_inv_initial\<close>, \<open>obs_inv_group_changes\<close>,
  \<open>obs_inv_handlers\<close>).
\<close>

theorem observers_replaced_on_change:
  assumes "obs_inv s" and "distinct (map group_id (groups p))"
  shows "filter obs_connected (observers (clearObservers s)) = []
       \<and> map obs_target (filter obs_connected (observers (observeGroups d p s))) =
           map (\<lambda>g. elementId (group_id g)) (filter (hasElement d) (groups p))
       \<and> distinct (map obs_target (filter obs_connected (observers (observeGroups d p s))))
       \<and> obs_inv (observeGroups d p s)"
proof -
  have old: "filter obs_connected (observers (clearObservers s)) = []"
    using assms(1) by (rule clearObservers_disposes)
  have targets: "map obs_target (filter obs_connected (observers (observeGroups d p s))) =
           map (\<lambda>g. elementId (group_id g)) (filter (hasElement d) (groups p))"
    by (simp add: observeGroups_connected [OF assms(1)] newObserver_def)
  have "distinct (map (\<lambda>g. elementId (group_id g)) (filter (hasElement d) (groups p)))"
    using assms(2) by (rule distinct_elementIds)
  then have dist:
    "distinct (map obs_target (filter obs_connected (observers (observeGroups d p s))))"
    by (simp only: targets)
  have inv: "obs_inv (observeGroups d p s)"
    using assms by (rule observeGroups_obs_inv)
  show ?thesis using old targets dist inv by (simp only: simp_thms)
qed

theorem observers_replaced_on_change_witness:
  "filter obs_connected
     (observers (clearObservers
        (observeGroups (page mounted [(''group-1'', 600), (''group-3'', 1400)] 0)
           (listening [\<lparr>group_id = 1, group_name = ''Team''\<rparr>,
                       \<lparr>group_id = 2, group_name = ''Docs''\<rparr>,
                       \<lparr>group_id = 3, group_name = ''Blog''\<rparr>] None)
           initial_state))) = []
   \<and> map obs_target
       (filter obs_connected
          (observers
             (observeGroups (page mounted [(''group-1'', 600), (''group-3'', 1400)] 0)
                (listening [\<lparr>group_id = 1, group_name = ''Team''\<rparr>,
                            \<lparr>group_id = 2, group_name = ''Docs''\<rparr>,
                            \<lparr>group_id = 3, group_name = ''Blog''\<rparr>] None)
                initial_state)))
     = [''group-1'', ''group-3'']
   \<and> map obs_target
       (filter obs_connected
          (observers
             (observeGroups (page mounted [(''group-1'', 600), (''group-2'', 900)] 0)
                (listening team_docs None)
                (observeGroups (page mounted [(''group-1'', 600), (''group-3'', 1400)] 0)
                   (listening [\<lparr>group_id = 1, group_name = ''Team''\<rparr>,
                               \<lparr>group_id = 2, group_name = ''Docs''\<rparr>,
                               \<lparr>group_id = 3, group_name = ''Blog''\<rparr>] None)
                   initial_state))))
     = [''group-1'', ''group-2'']"
proof -
  let ?d1 = "page mounted [(''group-1'', 600), (''group-3'', 1400)] 0"
  let ?p1 = "listening [\<lparr>group_id = 1, group_name = ''Team''\<rparr>,
                        \<lparr>group_id = 2, group_name = ''Docs''\<rparr>,
                        \<lparr>group_id = 3, group_name = ''Blog''\<rparr>] None"
  let ?d2 = "page mounted [(''group-1'', 600), (''group-2'', 900)] 0"
  let ?p2 = "listening team_docs None"
  have d1: "distinct (map group_id (groups ?p1))" by (simp add: listening_def)
  have d2: "distinct (map group_id (groups ?p2))" by (simp add: listening_def team_docs_def)
  note first = observers_replaced_on_change [OF obs_inv_initial d1, of ?d1]
  then have inv: "obs_inv (observeGroups ?d1 ?p1 initial_state)" by (simp only: simp_thms)
  note second = observers_replaced_on_change [OF inv d2, of ?d2]
  have h1: "filter (hasElement ?d1) (groups ?p1) =
      [\<lparr>group_id = 1, group_name = ''Team''\<rparr>, \<lparr>group_id = 3, group_name = ''Blog''\<rparr>]"
    by (simp add: hasElement_def listening_def page_def elementId_examples)
  have h2: "filter (hasElement ?d2) (groups ?p2) =
      [\<lparr>group_id = 1, group_name = ''Team''\<rparr>, \<lparr>group_id = 2, group_name = ''Docs''\<rparr>]"
    by (simp add: hasElement_def listening_def page_def team_docs_def elementId_examples)
  have t1: "map obs_target (filter obs_connected (observers (observeGroups ?d1 ?p1 initial_state)))
      = [''group-1'', ''group-3'']"
    using first by (simp add: h1 elementId_examples)
  have t2: "map obs_target (filter obs_connected
        (observers (observeGroups ?d2 ?p2 (observeGroups ?d1 ?p1 initial_state))))
      = [''group-1'', ''group-2'']"
    using second by (simp add: h2 elementId_examples)
  have t0: "filter obs_connected
      (observers (clearObservers (observeGroups ?d1 ?p1 initial_state))) = []"
    using second by (simp only: simp_thms)
  show ?thesis using t0 t1 t2 by (simp only: simp_thms)
qed

subsection \<open>C7: a selection clears the hover flag\<close>

text \<open>
  Claim C7: \<^verbatim>\<open>handleNavClick(X)\<close> sets the \<^verbatim>\<open>tooltipOpen\<close> entry of \<open>X\<close> to false, whether
  or not the element of \<open>X\<close> exists and whatever else the handler does; the entries of
  all other ids are left as they were, so none of them is set to true.
\<close>

theorem selection_clears_hover:
  "tooltipOpen (fst (handleNavClick d p s X)) X = Some False
   \<and> (\<forall>Y. Y \<noteq> X \<longrightarrow> tooltipOpen (fst (handleNavClick d p s X)) Y = tooltipOpen s Y)"
  by (simp add: handleNavClick_def)

theorem selection_clears_hover_witness:
  "tooltipOpen
     (fst (handleNavClick (page mounted [(''group-1'', 600)] 0) (listening team_docs None)
        (handleMouseEnter initial_state ''group-2'') ''group-2'')) ''group-2'' = Some False
   \<and> tooltipOpen
     (fst (handleNavClick (page mounted [(''group-1'', 600)] 0) (listening team_docs None)
        (handleMouseEnter initial_state ''group-2'') ''group-2'')) ''group-1'' = None"
  using selection_clears_hover [of "page mounted [(''group-1'', 600)] 0"
      "listening team_docs None" "handleMouseEnter initial_state ''group-2''" "''group-2''"]
  by (simp add: handleMouseEnter_def initial_state_def)

subsection \<open>C8: an empty group list\<close>

text \<open>
  Claim C8 says that with an empty group list the navigator renders nothing, no observer
  is created and no geometry probe runs, the engine short-circuiting before any of its
  subsystems executes.

  The early return (lines 174-176) comes after the three effects, so they all run with
  an empty list. The observers' effect then executes its teardown (lines 97-100): below,
  two observers are connected when the list becomes empty, and the effect disconnects
  both and empties \<^verbatim>\<open>observerRefs.current\<close>, so the state is not the one before.
\<close>

theorem empty_list_teardown_counterexample:
  "groups (listening [] (Some True)) = []
   \<and> length (filter obs_connected
        (observers
           (observeGroups (page mounted [(''group-1'', 600), (''group-2'', 900)] 0)
              (listening team_docs (Some True)) initial_state))) = 2
   \<and> filter obs_connected
        (observers
           (observeGroups (page None [(''group-1'', 600)] 700) (listening [] (Some True))
              (observeGroups (page mounted [(''group-1'', 600), (''group-2'', 900)] 0)
                 (listening team_docs (Some True)) initial_state))) = []
   \<and> observeGroups (page None [(''group-1'', 600)] 700) (listening [] (Some True))
        (observeGroups (page mounted [(''group-1'', 600), (''group-2'', 900)] 0)
           (listening team_docs (Some True)) initial_state)
      \<noteq> observeGroups (page mounted [(''group-1'', 600), (''group-2'', 900)] 0)
           (listening team_docs (Some True)) initial_state"
proof -
  let ?s = "observeGroups (page mounted [(''group-1'', 600), (''group-2'', 900)] 0)
              (listening team_docs (Some True)) initial_state"
  let ?s' = "observeGroups (page None [(''group-1'', 600)] 700) (listening [] (Some True)) ?s"
  have inv0: "obs_inv initial_state" by (rule obs_inv_initial)
  have "distinct (map group_id (groups (listening team_docs (Some True))))"
    by (simp add: listening_def team_docs_def)
  then have inv: "obs_inv ?s" by (rule observeGroups_obs_inv [OF inv0])
  have a: "groups (listening [] (Some True)) = []" by (simp add: listening_def)
  have "filter obs_connected (observers ?s) =
      map newObserver (filter (hasElement (page mounted [(''group-1'', 600), (''group-2'', 900)] 0))
        (groups (listening team_docs (Some True))))"
    using inv0 by (rule observeGroups_connected)
  then have b: "length (filter obs_connected (observers ?s)) = 2"
    by (simp add: hasElement_def page_def listening_def team_docs_def elementId_examples)
  have c: "filter obs_connected (observers ?s') = []"
    using observeGroups_connected [OF inv, of "page None [(''group-1'', 600)] 700"
        "listening [] (Some True)"]
    by (simp add: listening_def)
  have d: "?s' \<noteq> ?s"
  proof
    assume "?s' = ?s"
    then have "filter obs_connected (observers ?s') = filter obs_connected (observers ?s)"
      by (rule arg_cong)
    then have "length (filter obs_connected (observers ?s)) = 0" by (simp only: c list.size)
    then show False using b by simp
  qed
  show ?thesis by (intro conjI a b c d)
qed

text \<open>
  C8 as amended: with an empty group list the navigator renders nothing, so both of its
  refs are null. The effects still run, since the hooks precede the early return, but
  they start nothing: the observers' effect creates no observer and only disconnects
  those that exist (none is connected afterwards), \<^verbatim>\<open>updateNavPosition\<close> measures nothing
  and leaves the state as it is, and the scroll handler leaves the state as it is and
  makes no call.
\<close>

theorem empty_list_inactive:
  assumes "groups p = []" and "refs_of (GroupNavigation p s) d"
  shows "GroupNavigation p s = None
       \<and> observeGroups d p s = clearObservers s
       \<and> observerRefs (observeGroups d p s) = []
       \<and> length (observers (observeGroups d p s)) = length (observers s)
       \<and> (obs_inv s \<longrightarrow> filter obs_connected (observers (observeGroups d p s)) = [])
       \<and> updateNavPosition d s = s
       \<and> handleScroll d p s = (s, [])"
proof -
  have none: "GroupNavigation p s = None" using assms(1) by (simp add: GroupNavigation_def)
  then have refs: "navRef d = None" "firstGroupRef d = None"
    using assms(2) by (simp_all add: refs_of_def)
  have obs: "observeGroups d p s = clearObservers s"
    using assms(1) by (simp add: observeGroups_def)
  have "observerRefs (clearObservers s) = []"
    and "length (observers (clearObservers s)) = length (observers s)"
    by (simp_all add: clearObservers_def)
  moreover have "obs_inv s \<longrightarrow> filter obs_connected (observers (clearObservers s)) = []"
    using clearObservers_disposes by blast
  moreover have "updateNavPosition d s = s" using refs by (simp add: updateNavPosition_def)
  moreover have "handleScroll d p s = (s, [])" using refs by (simp add: handleScroll_def)
  ultimately show ?thesis using none obs by simp
qed

theorem empty_list_inactive_witness:
  "GroupNavigation (listening [] (Some True))
     (observeGroups (page mounted [(''group-1'', 600), (''group-2'', 900)] 0)
        (listening team_docs (Some True)) initial_state) = None
   \<and> filter obs_connected
       (observers
          (observeGroups (page None [(''group-1'', 600)] 700) (listening [] (Some True))
             (observeGroups (page mounted [(''group-1'', 600), (''group-2'', 900)] 0)
                (listening team_docs (Some True)) initial_state))) = []
   \<and> length
       (observers
          (observeGroups (page None [(''group-1'', 600)] 700) (listening [] (Some True))
             (observeGroups (page mounted [(''group-1'', 600), (''group-2'', 900)] 0)
                (listening team_docs (Some True)) initial_state))) = 2
   \<and> updateNavPosition (page None [(''group-1'', 600)] 700)
        (observeGroups (page mounted [(''group-1'', 600), (''group-2'', 900)] 0)
           (listening team_docs (Some True)) initial_state)
      = observeGroups (page mounted [(''group-1'', 600), (''group-2'', 900)] 0)
           (listening team_docs (Some True)) initial_state
   \<and> handleScroll (page None [(''group-1'', 600)] 700) (listening [] (Some True))
        (observeGroups (page mounted [(''group-1'', 600), (''group-2'', 900)] 0)
           (listening team_docs (Some True)) initial_state)
      = (observeGroups (page mounted [(''group-1'', 600), (''group-2'', 900)] 0)
           (listening team_docs (Some True)) initial_state, [])"
proof -
  let ?s = "observeGroups (page mounted [(''group-1'', 600), (''group-2'', 900)] 0)
              (listening team_docs (Some True)) initial_state"
  let ?p = "listening [] (Some True)"
  let ?d = "page None [(''group-1'', 600)] 700"
  have 1: "groups ?p = []" by (simp add: listening_def)
  have 2: "refs_of (GroupNavigation ?p ?s) ?d"
    by (simp add: refs_of_def GroupNavigation_def listening_def page_def)
  have "distinct (map group_id (groups (listening team_docs (Some True))))"
    by (simp add: listening_def team_docs_def)
  then have inv: "obs_inv ?s" by (rule observeGroups_obs_inv [OF obs_inv_initial])
  have len: "length (observers ?s) = 2"
    by (simp add: observeGroups_def observers_createObservers clearObservers_def
        initial_state_def hasElement_def page_def listening_def team_docs_def
        elementId_examples)
  note w = empty_list_inactive [OF 1 2]
  note w' = w [THEN conjunct2, THEN conjunct2, THEN conjunct2]
  have a: "GroupNavigation ?p ?s = None" by (rule w [THEN conjunct1])
  have b: "filter obs_connected (observers (observeGroups ?d ?p ?s)) = []"
    by (rule mp [OF w' [THEN conjunct2, THEN conjunct1] inv])
  have "length (observers (observeGroups ?d ?p ?s)) = length (observers ?s)"
    by (rule w' [THEN conjunct1])
  then have c: "length (observers (observeGroups ?d ?p ?s)) = 2" by (simp only: len)
  have d: "updateNavPosition ?d ?s = ?s"
    by (rule w' [THEN conjunct2, THEN conjunct2, THEN conjunct1])
  have e: "handleScroll ?d ?p ?s = (?s, [])"
    by (rule w' [THEN conjunct2, THEN conjunct2, THEN conjunct2])
  show ?thesis by (intro conjI a b c d e)
qed

subsection \<open>C9: a malformed id\<close>

text \<open>
  Claim C9 says that a selection whose id does not decode to a number emits no selection
  event. The handler has no such check (lines 151-154): it calls \<^verbatim>\<open>onGroupClick\<close> with
  whatever \<^verbatim>\<open>parseInt\<close> returns. For the id \<^verbatim>\<open>group-abc\<close> that is \<^verbatim>\<open>NaN\<close>, and the event is
  emitted with it.
\<close>

theorem malformed_id_emitted_counterexample:
  "parseInt (replace ''group-'' '''' ''group-abc'') = NaN
   \<and> snd (handleNavClick (page mounted [] 0) (listening team_docs None) initial_state
        ''group-abc'') = [OnGroupClick NaN]"
  by code_simp

text \<open>
  C9 as amended: the handler does not check the decoded id. Whenever a selection
  listener is supplied, a selection emits exactly one event, with the value \<^verbatim>\<open>parseInt\<close>
  gives for the id without its first \<^verbatim>\<open>group-\<close>; for a malformed id that value is
  \<^verbatim>\<open>NaN\<close>. Without a listener nothing is emitted.
\<close>

theorem selection_event_unchecked:
  "(onGroupClick p \<longrightarrow>
      selections (snd (handleNavClick d p s groupId)) =
        [parseInt (replace ''group-'' '''' groupId)])
   \<and> (onGroupClick p \<and> parseInt (replace ''group-'' '''' groupId) = NaN \<longrightarrow>
      selections (snd (handleNavClick d p s groupId)) = [NaN])
   \<and> (\<not> onGroupClick p \<longrightarrow> selections (snd (handleNavClick d p s groupId)) = [])"
  by (simp add: selections_handleNavClick)

theorem selection_event_unchecked_witness:
  "selections (snd (handleNavClick (page mounted [(''group-1'', 600)] 0)
       (listening team_docs None) initial_state ''group-1x'')) = [Num 1]
   \<and> selections (snd (handleNavClick (page mounted [(''group-1'', 600)] 0)
       (listening team_docs None) initial_state ''section-1'')) = [NaN]
   \<and> selections (snd (handleNavClick (page mounted [(''group-1'', 600)] 0)
       ((listening team_docs None)\<lparr>onGroupClick := False\<rparr>) initial_state ''group-1'')) = []"
proof -
  have 1: "parseInt ''1x'' = Num 1" by code_simp
  have 2: "parseInt ''section-1'' = NaN" by code_simp
  show ?thesis
    using
      selection_event_unchecked [of "listening team_docs None"
        "page mounted [(''group-1'', 600)] 0" initial_state "''group-1x''"]
      selection_event_unchecked [of "listening team_docs None"
        "page mounted [(''group-1'', 600)] 0" initial_state "''section-1''"]
      selection_event_unchecked [of "(listening team_docs None)\<lparr>onGroupClick := False\<rparr>"
        "page mounted [(''group-1'', 600)] 0" initial_state "''group-1''"]
    by (simp add: 1 2 listening_def)
qed

subsection \<open>C10: the selection event does not depend on the scroll\<close>

text \<open>
  Claim C10: with a selection listener supplied, a selection emits the selection event
  with the number decoded from the element id whether or not the element is in the
  document; when it is absent the event is the only call the handler makes. For the item
  of a group whose id \<open>i\<close> is a safe integer the decoded number is \<open>i\<close>.
\<close>

theorem selection_event_without_element:
  assumes "onGroupClick p"
  shows "(getElementById d groupId = None \<longrightarrow>
            snd (handleNavClick d p s groupId) =
              [OnGroupClick (parseInt (replace ''group-'' '''' groupId))])
     \<and> (getElementById d groupId \<noteq> None \<longrightarrow>
            selections (snd (handleNavClick d p s groupId)) =
              [parseInt (replace ''group-'' '''' groupId)])
     \<and> (safeInteger i \<longrightarrow>
            selections (snd (handleNavClick d p s (elementId i))) = [Num i])
     \<and> (safeInteger i \<and> getElementById d (elementId i) = None \<longrightarrow>
            snd (handleNavClick d p s (elementId i)) = [OnGroupClick (Num i)])"
proof -
  have "snd (handleNavClick d p s g) = [OnGroupClick (parseInt (replace ''group-'' '''' g))]"
    if "getElementById d g = None" for g
    using assms that by (simp add: handleNavClick_def)
  moreover have "selections (snd (handleNavClick d p s g)) =
      [parseInt (replace ''group-'' '''' g)]" for g
    using assms by (simp add: selections_handleNavClick)
  moreover have "parseInt (replace ''group-'' '''' (elementId i)) = Num i"
    by (rule decode_elementId)
  ultimately show ?thesis by metis
qed

theorem selection_event_without_element_witness:
  "snd (handleNavClick (page mounted [(''group-1'', 600)] 0)
       (listening team_docs None) initial_state ''group-2'') = [OnGroupClick (Num 2)]
   \<and> selections (snd (handleNavClick (page mounted [(''group-1'', 600)] 0)
       (listening team_docs None) initial_state ''group-1'')) = [Num 1]
   \<and> snd (handleNavClick (page mounted [(''group-1'', 600)] 0)
       (listening team_docs None) initial_state ''section-7'') = [OnGroupClick NaN]"
proof -
  let ?d = "page mounted [(''group-1'', 600)] 0"
  let ?p = "listening team_docs None"
  have l: "onGroupClick ?p" by (simp add: listening_def)
  note w2 = selection_event_without_element [OF l, of ?d "''section-7''" initial_state 2]
  note w1 = selection_event_without_element [OF l, of ?d "''group-1''" initial_state 1]
  have h2: "safeInteger 2 \<and> getElementById ?d (elementId 2) = None"
    by (simp add: safeInteger_def elementId_examples page_def)
  have "snd (handleNavClick ?d ?p initial_state (elementId 2)) = [OnGroupClick (Num 2)]"
    by (rule mp [OF w2 [THEN conjunct2, THEN conjunct2, THEN conjunct2] h2])
  then have a: "snd (handleNavClick ?d ?p initial_state ''group-2'') = [OnGroupClick (Num 2)]"
    by (simp only: elementId_examples)
  have h1: "safeInteger 1" by (simp add: safeInteger_def)
  have "selections (snd (handleNavClick ?d ?p initial_state (elementId 1))) = [Num 1]"
    by (rule mp [OF w1 [THEN conjunct2, THEN conjunct2, THEN conjunct1] h1])
  then have b: "selections (snd (handleNavClick ?d ?p initial_state ''group-1'')) = [Num 1]"
    by (simp only: elementId_examples)
  have h7: "getElementById ?d ''section-7'' = None" by (simp add: page_def)
  have n: "parseInt (replace ''group-'' '''' ''section-7'') = NaN" by code_simp
  have "snd (handleNavClick ?d ?p initial_state ''section-7'') =
      [OnGroupClick (parseInt (replace ''group-'' '''' ''section-7''))]"
    by (rule mp [OF w2 [THEN conjunct1] h7])
  then have c: "snd (handleNavClick ?d ?p initial_state ''section-7'') = [OnGroupClick NaN]"
    by (simp only: n)
  show ?thesis by (intro conjI a b c)
qed

end
